theory Spec2Isabelle
  imports Main "HOL-Library.Product_Lexorder" "HOL-Library.AList"
begin

section \<open>The puzzle model\<close>

text \<open>
  The solver in \<^verbatim>\<open>generate.py\<close> works on a \<^verbatim>\<open>Crossword\<close> object whose class lives in
  \<^verbatim>\<open>crossword.py\<close>. Only the attributes that \<^verbatim>\<open>CrosswordCreator\<close> reads are modelled:
  \<^verbatim>\<open>variables\<close>, \<^verbatim>\<open>words\<close>, \<^verbatim>\<open>overlaps\<close> and \<^verbatim>\<open>neighbors\<close>.

  A Python \<^verbatim>\<open>set\<close> is modelled as a list: the list order stands for the (unspecified but
  fixed) iteration order of the set. The lists of a crossword are arbitrary, so every
  theorem below holds for every iteration order of the input sets.
\<close>

datatype direction = ACROSS | DOWN

text \<open>
  A slot: \<^verbatim>\<open>Variable(i, j, direction, length)\<close>. Two slots are equal iff the four fields are.
\<close>

datatype variable = Variable (var_i: nat) (var_j: nat) (var_direction: direction) (var_length: nat)

text \<open>
  \<^verbatim>\<open>overlaps\<close> is a dictionary keyed by pairs of slots whose value is either \<^verbatim>\<open>None\<close> or a
  pair of indices: the outer option is the dictionary lookup (\<open>None\<close> is a missing key), the
  inner one is the stored value.
\<close>

record crossword =
  variables :: "variable list"
  words :: "string list"
  overlaps :: "variable \<times> variable \<Rightarrow> (nat \<times> nat) option option"

text \<open>
  Modelled from the spec: \<^verbatim>\<open>Crossword.neighbors\<close> is defined in \<^verbatim>\<open>crossword.py\<close>. The spec
  says: ``Neighbors(v): the set of slots overlapping v. Derived from the overlap relation;
  read-only.''
\<close>

definition neighbors :: "crossword \<Rightarrow> variable \<Rightarrow> variable list" where
  "neighbors cw var =
     filter (\<lambda>v. v \<noteq> var \<and> (case overlaps cw (v, var) of Some (Some p) \<Rightarrow> True | _ \<Rightarrow> False))
       (variables cw)"

text \<open>
  The contract of the puzzle model that the solver relies on (spec, data model): slots and
  words are sets; the overlap of every ordered pair of distinct slots is defined; the
  relation is symmetric with swapped indices; an index addresses a cell of its slot.
\<close>

definition wf_crossword :: "crossword \<Rightarrow> bool" where
  "wf_crossword cw \<longleftrightarrow>
     distinct (variables cw) \<and> distinct (words cw) \<and>
     list_all (\<lambda>x. list_all (\<lambda>y. x = y \<or>
        (case overlaps cw (x, y) of
           None \<Rightarrow> False
         | Some None \<Rightarrow> overlaps cw (y, x) = Some None
         | Some (Some (i_x, i_y)) \<Rightarrow>
             overlaps cw (y, x) = Some (Some (i_y, i_x)) \<and> i_x < var_length x \<and> i_y < var_length y))
        (variables cw)) (variables cw)"

section \<open>The domain store\<close>

datatype error = KeyError | IndexError | TypeError

text \<open>
  \<^verbatim>\<open>self.domains\<close> is a dictionary from slots to sets of words. Its keys are fixed by
  \<^verbatim>\<open>__init__\<close> to \<^verbatim>\<open>crossword.variables\<close> and no method adds or deletes a key; only the
  sets are mutated. The store is therefore the function from a slot to its current
  candidates, and \<^verbatim>\<open>for v in self.domains\<close> ranges over \<open>variables cw\<close>.
\<close>

type_synonym domains = "variable \<Rightarrow> string list"

type_synonym assignment = "(variable \<times> string) list"

type_synonym arc = "variable \<times> variable"

definition init_domains :: "crossword \<Rightarrow> domains" where
  "init_domains cw = (\<lambda>var. words cw)"

text \<open>\<^verbatim>\<open>word[k]\<close> for a non-negative \<open>k\<close>: raises \<^verbatim>\<open>IndexError\<close> out of range.\<close>

definition py_index :: "'a list \<Rightarrow> nat \<Rightarrow> error + 'a" where
  "py_index xs k = (if k < length xs then Inr (xs ! k) else Inl IndexError)"

definition enforce_node_consistency :: "crossword \<Rightarrow> domains \<Rightarrow> domains" where
  "enforce_node_consistency cw doms =
     fold (\<lambda>v d. fold (\<lambda>word d'. if length word \<noteq> var_length v then d'(v := removeAll word (d' v)) else d')
                   (d v) d)
       (variables cw) doms"

section \<open>Arc consistency\<close>

text \<open>
  The inner loop of \<^verbatim>\<open>revise\<close>: look for a word of \<open>domains[y]\<close> that agrees with
  \<open>word_x\<close>, stopping at the first one.
\<close>

fun find_match :: "string \<Rightarrow> nat \<Rightarrow> nat \<Rightarrow> string list \<Rightarrow> error + bool" where
  "find_match word_x i_x i_y [] = Inr False"
| "find_match word_x i_x i_y (word_y # rest) =
     (case py_index word_x i_x of
        Inl e \<Rightarrow> Inl e
      | Inr c_x \<Rightarrow>
          (case py_index word_y i_y of
             Inl e \<Rightarrow> Inl e
           | Inr c_y \<Rightarrow> if c_x = c_y then Inr True else find_match word_x i_x i_y rest))"

text \<open>
  The outer loop of \<^verbatim>\<open>revise\<close> over the copy \<open>all_words_x\<close>; the state is the store and
  \<open>flag\<close>.
\<close>

fun revise_loop ::
  "variable \<Rightarrow> variable \<Rightarrow> nat \<Rightarrow> nat \<Rightarrow> string list \<Rightarrow> domains \<Rightarrow> bool \<Rightarrow> error + (bool \<times> domains)" where
  "revise_loop x y i_x i_y [] doms flag = Inr (flag, doms)"
| "revise_loop x y i_x i_y (word_x # rest) doms flag =
     (case find_match word_x i_x i_y (doms y) of
        Inl e \<Rightarrow> Inl e
      | Inr found \<Rightarrow>
          if found then revise_loop x y i_x i_y rest doms flag
          else revise_loop x y i_x i_y rest (doms(x := removeAll word_x (doms x))) True)"

definition revise :: "crossword \<Rightarrow> domains \<Rightarrow> variable \<Rightarrow> variable \<Rightarrow> error + (bool \<times> domains)" where
  "revise cw doms x y =
     (case overlaps cw (x, y) of
        None \<Rightarrow> Inl KeyError
      | Some None \<Rightarrow> Inr (False, doms)
      | Some (Some (i_x, i_y)) \<Rightarrow> revise_loop x y i_x i_y (doms x) doms False)"

text \<open>
  \<^verbatim>\<open>{(x, y) for x in self.domains for y in self.domains if x != y}\<close>, the default arcs.
\<close>

definition all_arcs :: "crossword \<Rightarrow> arc list" where
  "all_arcs cw = concat (map (\<lambda>x. map (\<lambda>y. (x, y)) (filter (\<lambda>y. x \<noteq> y) (variables cw))) (variables cw))"

text \<open>\<^verbatim>\<open>{(y, x) for y in self.domains if x != y}\<close>, the arcs that end in \<open>x\<close>.\<close>

definition arcs_into :: "crossword \<Rightarrow> variable \<Rightarrow> arc list" where
  "arcs_into cw x = map (\<lambda>y. (y, x)) (filter (\<lambda>y. x \<noteq> y) (variables cw))"

definition set_union :: "'a list \<Rightarrow> 'a list \<Rightarrow> 'a list" where
  "set_union xs ys = remdups (xs @ ys)"

text \<open>
  \<^verbatim>\<open>arcs.pop()\<close> removes an arbitrary element. The choice is the parameter \<open>pick\<close>, which
  names a position in the current list; every theorem holds for every \<open>pick\<close>.
\<close>

definition set_pop :: "('a list \<Rightarrow> nat) \<Rightarrow> 'a list \<Rightarrow> 'a \<times> 'a list" where
  "set_pop pick xs = (let a = xs ! (pick xs mod length xs) in (a, removeAll a xs))"

definition ac3_measure :: "crossword \<Rightarrow> domains \<Rightarrow> arc list \<Rightarrow> nat" where
  "ac3_measure cw doms arcs = (\<Sum>v \<in> set (variables cw) \<union> fst ` set arcs. length (doms v))"

function ac3_loop :: "(arc list \<Rightarrow> nat) \<Rightarrow> crossword \<Rightarrow> domains \<Rightarrow> arc list \<Rightarrow> error + (bool \<times> domains)" where
  "ac3_loop pick cw doms arcs =
     (if length arcs > 0 then
        (case set_pop pick arcs of
           ((x, y), arcs') \<Rightarrow>
             (case revise cw doms x y of
                Inl e \<Rightarrow> Inl e
              | Inr (revised, doms') \<Rightarrow>
                  if revised then
                    if length (doms' x) = 0 then Inr (False, doms')
                    else ac3_loop pick cw doms' (set_union (arcs_into cw x) arcs')
                  else ac3_loop pick cw doms' arcs'))
      else Inr (True, doms))"
  by pat_completeness auto

lemma filter_removeAll_insert:
  "filter (\<lambda>v. v \<notin> R) (removeAll w xs) = filter (\<lambda>v. v \<notin> insert w R) xs"
  by (induction xs) auto

lemma revise_loop_removed:
  "revise_loop x y i_x i_y ws doms flag = Inr (flag', doms') \<Longrightarrow>
     (\<forall>z. z \<noteq> x \<longrightarrow> doms' z = doms z) \<and>
     (\<exists>R. R \<subseteq> set ws \<and> doms' x = filter (\<lambda>w. w \<notin> R) (doms x) \<and> (flag' \<longleftrightarrow> flag \<or> R \<noteq> {}))"
proof (induction ws arbitrary: doms flag)
  case Nil
  then show ?case by auto
next
  case (Cons w ws)
  from Cons.prems obtain found where fm: "find_match w i_x i_y (doms y) = Inr found"
    by (auto split: sum.splits)
  show ?case
  proof (cases found)
    case True
    with Cons.prems fm have "revise_loop x y i_x i_y ws doms flag = Inr (flag', doms')" by simp
    from Cons.IH[OF this] show ?thesis by auto
  next
    case False
    let ?d = "doms(x := removeAll w (doms x))"
    from False Cons.prems fm have "revise_loop x y i_x i_y ws ?d True = Inr (flag', doms')" by simp
    from Cons.IH[OF this] obtain R where
      fr: "\<forall>z. z \<noteq> x \<longrightarrow> doms' z = ?d z" and R: "R \<subseteq> set ws"
      and dx: "doms' x = filter (\<lambda>w. w \<notin> R) (?d x)" and fl: "flag'" by auto
    have "doms' x = filter (\<lambda>v. v \<notin> insert w R) (doms x)"
    proof -
      have "filter (\<lambda>v. v \<notin> R) (removeAll w (doms x)) = filter (\<lambda>v. v \<notin> insert w R) (doms x)"
        by (rule filter_removeAll_insert)
      with dx show ?thesis by simp
    qed
    moreover have "insert w R \<subseteq> set (w # ws)" using R by auto
    ultimately show ?thesis using fr fl by (intro conjI exI[of _ "insert w R"]) auto
  qed
qed

lemma revise_frame:
  "revise cw doms x y = Inr (revised, doms') \<Longrightarrow> z \<noteq> x \<Longrightarrow> doms' z = doms z"
  by (auto simp: revise_def split: option.splits dest: revise_loop_removed)

lemma revise_removed:
  assumes "revise cw doms x y = Inr (revised, doms')"
  shows "\<exists>R. R \<subseteq> set (doms x) \<and> doms' x = filter (\<lambda>w. w \<notin> R) (doms x) \<and> (revised \<longleftrightarrow> R \<noteq> {})"
proof (cases "overlaps cw (x, y)")
  case None
  with assms show ?thesis by (simp add: revise_def)
next
  case (Some o1)
  show ?thesis
  proof (cases o1)
    case None
    with Some assms have "doms' = doms" "\<not> revised" by (auto simp: revise_def)
    then show ?thesis by (intro exI[of _ "{}"]) simp
  next
    case (Some p)
    obtain i_x i_y where p: "p = (i_x, i_y)" by (cases p)
    with Some \<open>overlaps cw (x, y) = Some o1\<close> assms
    have "revise_loop x y i_x i_y (doms x) doms False = Inr (revised, doms')"
      by (simp add: revise_def)
    from revise_loop_removed[OF this] show ?thesis by auto
  qed
qed

lemma revise_unchanged:
  assumes "revise cw doms x y = Inr (False, doms')"
  shows "doms' = doms"
proof
  fix z
  from revise_removed[OF assms] have "doms' x = doms x" by auto
  with revise_frame[OF assms] show "doms' z = doms z" by (cases "z = x") auto
qed

lemma revise_subset:
  assumes "revise cw doms x y = Inr (revised, doms')"
  shows "set (doms' z) \<subseteq> set (doms z)"
  using revise_removed[OF assms] revise_frame[OF assms, of z] by (cases "z = x") auto

lemma revise_length_le:
  assumes "revise cw doms x y = Inr (revised, doms')"
  shows "length (doms' z) \<le> length (doms z)"
  using revise_removed[OF assms] revise_frame[OF assms, of z] by (cases "z = x") auto

lemma revise_length_less:
  assumes "revise cw doms x y = Inr (True, doms')"
  shows "length (doms' x) < length (doms x)"
proof -
  from revise_removed[OF assms] obtain R where R: "R \<subseteq> set (doms x)" "R \<noteq> {}"
    and dx: "doms' x = filter (\<lambda>w. w \<notin> R) (doms x)" by auto
  then obtain w where w: "w \<in> set (doms x)" "\<not> (w \<notin> R)" by auto
  have "length (filter (\<lambda>w. w \<notin> R) (doms x)) < length (doms x)"
    using w length_filter_less[of w "doms x" "\<lambda>w. w \<notin> R"] by simp
  with dx show ?thesis by simp
qed

lemma set_pop_mem:
  assumes "xs \<noteq> []" "set_pop pick xs = (a, xs')"
  shows "a \<in> set xs" "xs' = removeAll a xs" "length xs' < length xs"
proof -
  from assms have a: "a = xs ! (pick xs mod length xs)" and xs': "xs' = removeAll a xs"
    by (auto simp: set_pop_def Let_def)
  from assms(1) have "pick xs mod length xs < length xs" by simp
  with a show "a \<in> set xs" by simp
  show "xs' = removeAll a xs" by fact
  from \<open>a \<in> set xs\<close> xs' show "length xs' < length xs"
    by (simp add: length_removeAll_less)
qed

lemma ac3_measure_mono:
  assumes "\<And>z. length (doms' z) \<le> length (doms z)"
    and "fst ` set arcs' \<subseteq> set (variables cw) \<union> fst ` set arcs"
  shows "ac3_measure cw doms' arcs' \<le> ac3_measure cw doms arcs"
proof -
  let ?S' = "set (variables cw) \<union> fst ` set arcs'" and ?S = "set (variables cw) \<union> fst ` set arcs"
  have "(\<Sum>v\<in>?S'. length (doms' v)) \<le> (\<Sum>v\<in>?S. length (doms' v))"
    using assms(2) by (intro sum_mono2) auto
  also have "\<dots> \<le> (\<Sum>v\<in>?S. length (doms v))"
    using assms(1) by (intro sum_mono) auto
  finally show ?thesis by (simp add: ac3_measure_def)
qed

lemma ac3_measure_less:
  assumes "\<And>z. length (doms' z) \<le> length (doms z)"
    and "fst ` set arcs' \<subseteq> set (variables cw) \<union> fst ` set arcs"
    and "x \<in> fst ` set arcs" "length (doms' x) < length (doms x)"
  shows "ac3_measure cw doms' arcs' < ac3_measure cw doms arcs"
proof -
  let ?S' = "set (variables cw) \<union> fst ` set arcs'" and ?S = "set (variables cw) \<union> fst ` set arcs"
  have "(\<Sum>v\<in>?S'. length (doms' v)) \<le> (\<Sum>v\<in>?S. length (doms' v))"
    using assms(2) by (intro sum_mono2) auto
  also have "\<dots> < (\<Sum>v\<in>?S. length (doms v))"
    using assms(1,3,4) by (intro sum_strict_mono_ex1) auto
  finally show ?thesis by (simp add: ac3_measure_def)
qed

lemma set_set_union [simp]: "set (set_union xs ys) = set xs \<union> set ys"
  by (simp add: set_union_def)

lemma set_arcs_into: "set (arcs_into cw x) = {(y, x) | y. y \<in> set (variables cw) \<and> x \<noteq> y}"
  by (auto simp: arcs_into_def)

termination ac3_loop
proof (relation "measures [\<lambda>(pick, cw, doms, arcs). ac3_measure cw doms arcs,
                           \<lambda>(pick, cw, doms, arcs). length arcs]", goal_cases)
  case 1
  show ?case by simp
next
  case (2 pick cw doms arcs p arcs' x y r revised doms')
  then have ne: "arcs \<noteq> []" and pop: "set_pop pick arcs = ((x, y), arcs')"
    and rev: "revise cw doms x y = Inr (True, doms')" by auto
  from set_pop_mem[OF ne pop] have mem: "(x, y) \<in> set arcs" and arcs': "arcs' = removeAll (x, y) arcs"
    by auto
  have "ac3_measure cw doms' (set_union (arcs_into cw x) arcs') < ac3_measure cw doms arcs"
  proof (rule ac3_measure_less)
    show "length (doms' z) \<le> length (doms z)" for z by (rule revise_length_le[OF rev])
    show "fst ` set (set_union (arcs_into cw x) arcs') \<subseteq> set (variables cw) \<union> fst ` set arcs"
      using arcs' by (auto simp: set_arcs_into)
    show "x \<in> fst ` set arcs" using mem by force
    show "length (doms' x) < length (doms x)" by (rule revise_length_less[OF rev])
  qed
  then show ?case by simp
next
  case (3 pick cw doms arcs p arcs' x y r revised doms')
  then have ne: "arcs \<noteq> []" and pop: "set_pop pick arcs = ((x, y), arcs')"
    and rev: "revise cw doms x y = Inr (False, doms')" by auto
  from set_pop_mem[OF ne pop] have arcs': "arcs' = removeAll (x, y) arcs"
    and len: "length arcs' < length arcs" by auto
  have "ac3_measure cw doms' arcs' \<le> ac3_measure cw doms arcs"
  proof (rule ac3_measure_mono)
    show "length (doms' z) \<le> length (doms z)" for z by (rule revise_length_le[OF rev])
    show "fst ` set arcs' \<subseteq> set (variables cw) \<union> fst ` set arcs"
      using arcs' by auto
  qed
  with len show ?case by auto
qed

declare ac3_loop.simps [simp del]

text \<open>
  \<^verbatim>\<open>ac3(arcs=None)\<close>: \<open>None\<close> stands for the default argument, the set of all arcs.
\<close>

definition ac3 :: "(arc list \<Rightarrow> nat) \<Rightarrow> crossword \<Rightarrow> domains \<Rightarrow> arc list option \<Rightarrow> error + (bool \<times> domains)" where
  "ac3 pick cw doms arcs =
     ac3_loop pick cw doms (case arcs of None \<Rightarrow> all_arcs cw | Some given \<Rightarrow> given)"

section \<open>Assignments\<close>

text \<open>
  An assignment is a dictionary from slots to words: an association list in insertion
  order whose keys are distinct. \<^verbatim>\<open>assignment[var] = word\<close> is \<open>AList.update\<close>, which
  replaces the value of a present key in place and appends a new key.
\<close>

definition assignment_keys :: "assignment \<Rightarrow> variable list" where
  "assignment_keys assignment = map fst assignment"

definition assignment_complete :: "crossword \<Rightarrow> assignment \<Rightarrow> bool" where
  "assignment_complete cw assignment \<longleftrightarrow> length assignment = length (variables cw)"

text \<open>\<^verbatim>\<open>itertools.combinations(keys, 2)\<close>: the pairs of keys, the earlier key first.\<close>

fun combinations2 :: "'a list \<Rightarrow> ('a \<times> 'a) list" where
  "combinations2 [] = []"
| "combinations2 (x # xs) = map (\<lambda>y. (x, y)) xs @ combinations2 xs"

definition dict_get :: "('k \<times> 'v) list \<Rightarrow> 'k \<Rightarrow> error + 'v" where
  "dict_get d k = (case map_of d k of None \<Rightarrow> Inl KeyError | Some v \<Rightarrow> Inr v)"

text \<open>The last loop of \<^verbatim>\<open>consistent\<close>, over the pairs of assigned slots.\<close>

fun check_overlaps :: "crossword \<Rightarrow> assignment \<Rightarrow> (variable \<times> variable) list \<Rightarrow> error + bool" where
  "check_overlaps cw assignment [] = Inr True"
| "check_overlaps cw assignment ((x, y) # rest) =
     (case overlaps cw (x, y) of
        None \<Rightarrow> Inl KeyError
      | Some None \<Rightarrow> check_overlaps cw assignment rest
      | Some (Some (i_x, i_y)) \<Rightarrow>
          (case dict_get assignment x of
             Inl e \<Rightarrow> Inl e
           | Inr word_x \<Rightarrow>
               (case py_index word_x i_x of
                  Inl e \<Rightarrow> Inl e
                | Inr c_x \<Rightarrow>
                    (case dict_get assignment y of
                       Inl e \<Rightarrow> Inl e
                     | Inr word_y \<Rightarrow>
                         (case py_index word_y i_y of
                            Inl e \<Rightarrow> Inl e
                          | Inr c_y \<Rightarrow>
                              if c_x \<noteq> c_y then Inr False
                              else check_overlaps cw assignment rest)))))"

definition consistent :: "crossword \<Rightarrow> assignment \<Rightarrow> error + bool" where
  "consistent cw assignment =
     (if length (remdups (map snd assignment)) \<noteq> length assignment then Inr False
      else if list_ex (\<lambda>(v, word). length word \<noteq> var_length v) assignment then Inr False
      else check_overlaps cw assignment (combinations2 (assignment_keys assignment)))"

section \<open>Search heuristics\<close>

text \<open>The innermost loop of \<^verbatim>\<open>order_domain_values\<close>, over the words of one neighbour.\<close>

fun count_ruled_out :: "string \<Rightarrow> nat \<Rightarrow> nat \<Rightarrow> string list \<Rightarrow> nat \<Rightarrow> error + nat" where
  "count_ruled_out word_var i_var i_neighbor [] remove_count = Inr remove_count"
| "count_ruled_out word_var i_var i_neighbor (word_neighbor # rest) remove_count =
     (case py_index word_var i_var of
        Inl e \<Rightarrow> Inl e
      | Inr c_var \<Rightarrow>
          (case py_index word_neighbor i_neighbor of
             Inl e \<Rightarrow> Inl e
           | Inr c_neighbor \<Rightarrow>
               count_ruled_out word_var i_var i_neighbor rest
                 (if c_var \<noteq> c_neighbor then remove_count + 1 else remove_count)))"

text \<open>
  The loop over the neighbours of \<open>var\<close>. Unpacking \<^verbatim>\<open>None\<close> into \<^verbatim>\<open>i_var, i_neighbor\<close>
  raises \<^verbatim>\<open>TypeError\<close>.
\<close>

fun count_neighbors ::
  "crossword \<Rightarrow> domains \<Rightarrow> assignment \<Rightarrow> variable \<Rightarrow> string \<Rightarrow> variable list \<Rightarrow> nat \<Rightarrow> error + nat" where
  "count_neighbors cw doms assignment var word_var [] remove_count = Inr remove_count"
| "count_neighbors cw doms assignment var word_var (neighbor # rest) remove_count =
     (if neighbor \<in> set (assignment_keys assignment)
      then count_neighbors cw doms assignment var word_var rest remove_count
      else
        (case overlaps cw (var, neighbor) of
           None \<Rightarrow> Inl KeyError
         | Some None \<Rightarrow> Inl TypeError
         | Some (Some (i_var, i_neighbor)) \<Rightarrow>
             (case count_ruled_out word_var i_var i_neighbor (doms neighbor) remove_count of
                Inl e \<Rightarrow> Inl e
              | Inr remove_count' \<Rightarrow>
                  count_neighbors cw doms assignment var word_var rest remove_count')))"

text \<open>The outer loop, which fills the dictionary \<open>rule_out\<close>.\<close>

fun rule_out_loop ::
  "crossword \<Rightarrow> domains \<Rightarrow> assignment \<Rightarrow> variable \<Rightarrow> string list \<Rightarrow> (string \<times> nat) list
     \<Rightarrow> error + (string \<times> nat) list" where
  "rule_out_loop cw doms assignment var [] rule_out = Inr rule_out"
| "rule_out_loop cw doms assignment var (word_var # rest) rule_out =
     (case count_neighbors cw doms assignment var word_var (neighbors cw var) 0 of
        Inl e \<Rightarrow> Inl e
      | Inr remove_count \<Rightarrow>
          rule_out_loop cw doms assignment var rest (AList.update word_var remove_count rule_out))"

text \<open>
  \<^verbatim>\<open>sorted\<close> is stable, and so is \<open>sort_key\<close>; sorting the keys of \<open>rule_out\<close> by their
  values is sorting its items by value and keeping the keys.
\<close>

definition order_domain_values ::
  "crossword \<Rightarrow> domains \<Rightarrow> variable \<Rightarrow> assignment \<Rightarrow> error + string list" where
  "order_domain_values cw doms var assignment =
     (case rule_out_loop cw doms assignment var (doms var) [] of
        Inl e \<Rightarrow> Inl e
      | Inr rule_out \<Rightarrow> Inr (map fst (sort_key snd rule_out)))"

definition unassigned_variables :: "crossword \<Rightarrow> assignment \<Rightarrow> variable list" where
  "unassigned_variables cw assignment =
     filter (\<lambda>v. v \<notin> set (assignment_keys assignment)) (variables cw)"

text \<open>
  Python compares the key tuples lexicographically, as the order on pairs does here.
  Taking element \<open>0\<close> of an empty list raises \<^verbatim>\<open>IndexError\<close>.
\<close>

definition select_unassigned_variable :: "crossword \<Rightarrow> domains \<Rightarrow> assignment \<Rightarrow> error + variable" where
  "select_unassigned_variable cw doms assignment =
     py_index
       (sort_key (\<lambda>x. (length (doms x), length (neighbors cw x))) (unassigned_variables cw assignment))
       0"

section \<open>Backtracking search\<close>

text \<open>The arcs between slots that \<open>new_assignment\<close> leaves unassigned.\<close>

definition unassigned_arcs :: "crossword \<Rightarrow> assignment \<Rightarrow> arc list" where
  "unassigned_arcs cw new_assignment =
     concat (map (\<lambda>x. map (\<lambda>y. (x, y))
        (filter (\<lambda>y. x \<noteq> y \<and> x \<notin> set (assignment_keys new_assignment)
                        \<and> y \<notin> set (assignment_keys new_assignment)) (variables cw)))
      (variables cw))"

text \<open>
  \<open>backtrack\<close> and the \<^verbatim>\<open>for word in ...\<close> loop of its body. The store is passed in and
  returned: what a branch removes from the domains stays removed for the branches tried
  after it. The result \<open>None\<close> is Python's \<^verbatim>\<open>None\<close>.
\<close>

function backtrack ::
    "(arc list \<Rightarrow> nat) \<Rightarrow> crossword \<Rightarrow> domains \<Rightarrow> assignment \<Rightarrow> error + (assignment option \<times> domains)"
  and backtrack_loop ::
    "(arc list \<Rightarrow> nat) \<Rightarrow> crossword \<Rightarrow> domains \<Rightarrow> assignment \<Rightarrow> variable \<Rightarrow> string list
       \<Rightarrow> error + (assignment option \<times> domains)" where
  "backtrack pick cw doms assignment =
     (if assignment_complete cw assignment then Inr (Some assignment, doms)
      else
        (case select_unassigned_variable cw doms assignment of
           Inl e \<Rightarrow> Inl e
         | Inr var \<Rightarrow>
             (case order_domain_values cw doms var assignment of
                Inl e \<Rightarrow> Inl e
              | Inr ordered \<Rightarrow> backtrack_loop pick cw doms assignment var ordered)))"
| "backtrack_loop pick cw doms assignment var [] = Inr (None, doms)"
| "backtrack_loop pick cw doms assignment var (word # rest) =
     (case consistent cw (AList.update var word assignment) of
        Inl e \<Rightarrow> Inl e
      | Inr ok \<Rightarrow>
          if \<not> ok then backtrack_loop pick cw doms assignment var rest
          else
            (case ac3 pick cw doms (Some (unassigned_arcs cw (AList.update var word assignment))) of
               Inl e \<Rightarrow> Inl e
             | Inr (enforced, doms1) \<Rightarrow>
                 (case backtrack pick cw doms1 (AList.update var word assignment) of
                    Inl e \<Rightarrow> Inl e
                  | Inr (Some result, doms2) \<Rightarrow> Inr (Some result, doms2)
                  | Inr (None, doms2) \<Rightarrow> backtrack_loop pick cw doms2 assignment var rest)))"
  by pat_completeness auto

lemma py_index_0: "py_index xs 0 = Inr v \<Longrightarrow> v \<in> set xs"
  by (cases xs) (auto simp: py_index_def)

lemma select_unassigned_variable_mem:
  "select_unassigned_variable cw doms assignment = Inr var \<Longrightarrow>
     var \<in> set (variables cw) \<and> var \<notin> set (assignment_keys assignment)"
  by (auto simp: select_unassigned_variable_def unassigned_variables_def dest!: py_index_0)

lemma assignment_keys_update:
  "set (assignment_keys (AList.update var word assignment)) = insert var (set (assignment_keys assignment))"
  using dom_update[of var word assignment] by (simp add: assignment_keys_def)

lemma unassigned_variables_update_less:
  assumes "var \<in> set (variables cw)" "var \<notin> set (assignment_keys assignment)"
  shows "length (unassigned_variables cw (AList.update var word assignment))
           < length (unassigned_variables cw assignment)"
proof -
  let ?us = "filter (\<lambda>v. v \<notin> set (assignment_keys assignment)) (variables cw)"
  have "var \<in> set ?us" using assms by simp
  then have "length (filter (\<lambda>v. v \<noteq> var) ?us) < length ?us"
    using length_filter_less[of var ?us "\<lambda>v. v \<noteq> var"] by simp
  then have "length (filter (\<lambda>v. v \<noteq> var \<and> v \<notin> set (assignment_keys assignment)) (variables cw))
          < length (filter (\<lambda>v. v \<notin> set (assignment_keys assignment)) (variables cw))"
    by (simp add: conj_commute)
  then show ?thesis
    by (simp add: unassigned_variables_def assignment_keys_update)
qed

termination backtrack
proof (relation "measures
    [\<lambda>a. case a of
        Inl (pick, cw, doms, assignment) \<Rightarrow> length (unassigned_variables cw assignment)
      | Inr (pick, cw, doms, assignment, var, ordered) \<Rightarrow>
          length (unassigned_variables cw (AList.update var [] assignment)),
     \<lambda>a. case a of Inl _ \<Rightarrow> 0 | Inr _ \<Rightarrow> 1,
     \<lambda>a. case a of Inl _ \<Rightarrow> 0 | Inr (pick, cw, doms, assignment, var, ordered) \<Rightarrow> length ordered]",
    goal_cases)
  case 1
  show ?case by simp
next
  case (2 pick cw doms assignment var ordered)
  from select_unassigned_variable_mem[OF 2(2)]
  show ?case by (simp add: unassigned_variables_update_less)
next
  case 3
  then show ?case by simp
next
  case 4
  then show ?case by (simp add: unassigned_variables_def assignment_keys_update)
next
  case 5
  then show ?case by simp
qed

declare backtrack.simps [simp del] backtrack_loop.simps [simp del]

text \<open>
  \<^verbatim>\<open>solve\<close> ignores what \<^verbatim>\<open>ac3\<close> returns. \<open>doms\<close> is the store of the creator when
  \<^verbatim>\<open>solve\<close> is called: \<open>init_domains cw\<close> for a creator that was just constructed.
\<close>

definition solve :: "(arc list \<Rightarrow> nat) \<Rightarrow> crossword \<Rightarrow> domains \<Rightarrow> error + (assignment option \<times> domains)" where
  "solve pick cw doms =
     (case ac3 pick cw (enforce_node_consistency cw doms) None of
        Inl e \<Rightarrow> Inl e
      | Inr (enforced, doms') \<Rightarrow> backtrack pick cw doms' [])"

section \<open>Example puzzles\<close>

text \<open>
  A three by three grid whose top row is the slot \<open>slot_A\<close> and whose left and right
  columns are the slots \<open>slot_B\<close> and \<open>slot_C\<close>: \<open>slot_A\<close> crosses both, and they do not
  meet.
\<close>

definition slot_A :: variable where "slot_A = Variable 0 0 ACROSS 3"
definition slot_B :: variable where "slot_B = Variable 0 0 DOWN 3"
definition slot_C :: variable where "slot_C = Variable 0 2 DOWN 3"

definition ex_overlaps :: "variable \<times> variable \<Rightarrow> (nat \<times> nat) option option" where
  "ex_overlaps = map_of
     [((slot_A, slot_B), Some (0, 0)), ((slot_B, slot_A), Some (0, 0)),
      ((slot_A, slot_C), Some (2, 0)), ((slot_C, slot_A), Some (0, 2)),
      ((slot_B, slot_C), None), ((slot_C, slot_B), None)]"

definition ex_crossword :: crossword where
  "ex_crossword = \<lparr>variables = [slot_A, slot_B, slot_C],
                    words = [''CAT'', ''COD'', ''TOP'', ''DOG''],
                    overlaps = ex_overlaps\<rparr>"

definition pop_first :: "arc list \<Rightarrow> nat" where
  "pop_first arcs = 0"

lemmas ex_defs = ex_crossword_def ex_overlaps_def slot_A_def slot_B_def slot_C_def

section \<open>Properties of revise\<close>

lemma find_match_supported:
  assumes "i_x < length word_x" "\<forall>word_y \<in> set dy. i_y < length word_y"
  shows "find_match word_x i_x i_y dy = Inr (\<exists>word_y \<in> set dy. word_x ! i_x = word_y ! i_y)"
  using assms by (induction dy) (auto simp: py_index_def)

lemma filter_removeAll:
  "filter P (removeAll w xs) = filter (\<lambda>v. v \<noteq> w \<and> P v) xs"
  by (induction xs) auto

lemma revise_loop_exact:
  assumes "x \<noteq> y" "\<forall>w \<in> set ws. i_x < length w" "\<forall>word_y \<in> set (doms y). i_y < length word_y"
  shows "revise_loop x y i_x i_y ws doms flag =
           Inr (flag \<or> (\<exists>w \<in> set ws. \<not> (\<exists>word_y \<in> set (doms y). w ! i_x = word_y ! i_y)),
                doms(x := filter (\<lambda>w. w \<in> set ws \<longrightarrow> (\<exists>word_y \<in> set (doms y). w ! i_x = word_y ! i_y)) (doms x)))"
  using assms
proof (induction ws arbitrary: doms flag)
  case Nil
  then show ?case by simp
next
  case (Cons w ws)
  let ?supp = "\<lambda>w. \<exists>word_y \<in> set (doms y). w ! i_x = word_y ! i_y"
  have fm: "find_match w i_x i_y (doms y) = Inr (?supp w)"
    using Cons.prems by (intro find_match_supported) auto
  show ?case
  proof (cases "?supp w")
    case True
    have "filter (\<lambda>v. v \<in> set ws \<longrightarrow> ?supp v) (doms x) = filter (\<lambda>v. v \<in> set (w # ws) \<longrightarrow> ?supp v) (doms x)"
      using True by (intro filter_cong) auto
    moreover have "revise_loop x y i_x i_y (w # ws) doms flag = revise_loop x y i_x i_y ws doms flag"
      using fm True by simp
    ultimately show ?thesis using Cons.IH[of doms flag] Cons.prems True by auto
  next
    case False
    let ?d = "doms(x := removeAll w (doms x))"
    have dy: "?d y = doms y" using Cons.prems(1) by simp
    have "filter (\<lambda>v. v \<in> set ws \<longrightarrow> ?supp v) (removeAll w (doms x))
            = filter (\<lambda>v. v \<in> set (w # ws) \<longrightarrow> ?supp v) (doms x)"
    proof -
      have "filter (\<lambda>v. v \<in> set ws \<longrightarrow> ?supp v) (removeAll w (doms x))
              = filter (\<lambda>v. v \<noteq> w \<and> (v \<in> set ws \<longrightarrow> ?supp v)) (doms x)"
        by (rule filter_removeAll)
      also have "\<dots> = filter (\<lambda>v. v \<in> set (w # ws) \<longrightarrow> ?supp v) (doms x)"
        using False by (intro filter_cong) auto
      finally show ?thesis .
    qed
    moreover have "revise_loop x y i_x i_y (w # ws) doms flag = revise_loop x y i_x i_y ws ?d True"
      using fm False by simp
    moreover have "revise_loop x y i_x i_y ws ?d True =
           Inr (True, ?d(x := filter (\<lambda>v. v \<in> set ws \<longrightarrow> ?supp v) (removeAll w (doms x))))"
    proof -
      have dx: "?d x = removeAll w (doms x)" by simp
      have "revise_loop x y i_x i_y ws ?d True =
           Inr (True \<or> (\<exists>w \<in> set ws. \<not> (\<exists>word_y \<in> set (?d y). w ! i_x = word_y ! i_y)),
                ?d(x := filter (\<lambda>w. w \<in> set ws \<longrightarrow> (\<exists>word_y \<in> set (?d y). w ! i_x = word_y ! i_y)) (?d x)))"
      proof (rule Cons.IH)
        show "x \<noteq> y" by (rule Cons.prems(1))
        show "\<forall>w \<in> set ws. i_x < length w" using Cons.prems(2) by simp
        show "\<forall>word_y \<in> set (?d y). i_y < length word_y" using Cons.prems(3) dy by simp
      qed
      then show ?thesis by (simp only: dy dx simp_thms)
    qed
    moreover have "(flag \<or> (\<exists>v \<in> set (w # ws). \<not> ?supp v)) = True"
      using False by auto
    ultimately show ?thesis by (simp only: fun_upd_upd)
  qed
qed

lemma revise_exact:
  assumes "x \<noteq> y" "overlaps cw (x, y) = Some (Some (i_x, i_y))"
    "\<forall>w \<in> set (doms x). i_x < length w" "\<forall>w \<in> set (doms y). i_y < length w"
  shows "revise cw doms x y =
           Inr (\<exists>w \<in> set (doms x). \<not> (\<exists>word_y \<in> set (doms y). w ! i_x = word_y ! i_y),
                doms(x := filter (\<lambda>w. \<exists>word_y \<in> set (doms y). w ! i_x = word_y ! i_y) (doms x)))"
proof -
  have "filter (\<lambda>w. w \<in> set (doms x) \<longrightarrow> (\<exists>word_y \<in> set (doms y). w ! i_x = word_y ! i_y)) (doms x)
          = filter (\<lambda>w. \<exists>word_y \<in> set (doms y). w ! i_x = word_y ! i_y) (doms x)"
    by (intro filter_cong) auto
  then show ?thesis
    using revise_loop_exact[of x y "doms x" i_x doms i_y False] assms by (simp add: revise_def)
qed

text \<open>
  C4. For distinct slots \<open>x\<close> and \<open>y\<close> whose overlap entry is \<open>ov\<close>: when \<open>ov\<close> is \<open>None\<close>,
  \<open>revise\<close> returns false and the store it was given. When \<open>ov\<close> is a pair of indices
  that the candidate words of \<open>x\<close> and \<open>y\<close> have, \<open>revise\<close> returns a store in which the
  domain of \<open>x\<close> holds exactly the words that agree with some word of the domain of \<open>y\<close>
  at these indices, and it returns true iff a word of the domain of \<open>x\<close> is gone.
\<close>

theorem revise_removes_unsupported:
  assumes "x \<noteq> y" and "overlaps cw (x, y) = Some ov"
    and "\<forall>i_x i_y. ov = Some (i_x, i_y) \<longrightarrow>
           (\<forall>w \<in> set (doms x). i_x < length w) \<and> (\<forall>w \<in> set (doms y). i_y < length w)"
  shows "(ov = None \<longrightarrow> revise cw doms x y = Inr (False, doms)) \<and>
         (\<forall>i_x i_y. ov = Some (i_x, i_y) \<longrightarrow>
            (\<exists>revised doms'. revise cw doms x y = Inr (revised, doms') \<and>
               doms' x = filter (\<lambda>word_x. \<exists>word_y \<in> set (doms y). word_x ! i_x = word_y ! i_y) (doms x) \<and>
               (revised \<longleftrightarrow> (\<exists>w \<in> set (doms x). w \<notin> set (doms' x)))))"
proof (intro conjI allI impI)
  assume "ov = None"
  with assms(2) show "revise cw doms x y = Inr (False, doms)" by (simp add: revise_def)
next
  fix i_x i_y
  assume ov: "ov = Some (i_x, i_y)"
  with assms have "revise cw doms x y =
           Inr (\<exists>w \<in> set (doms x). \<not> (\<exists>word_y \<in> set (doms y). w ! i_x = word_y ! i_y),
                doms(x := filter (\<lambda>w. \<exists>word_y \<in> set (doms y). w ! i_x = word_y ! i_y) (doms x)))"
    by (intro revise_exact) auto
  then show "\<exists>revised doms'. revise cw doms x y = Inr (revised, doms') \<and>
               doms' x = filter (\<lambda>word_x. \<exists>word_y \<in> set (doms y). word_x ! i_x = word_y ! i_y) (doms x) \<and>
               (revised \<longleftrightarrow> (\<exists>w \<in> set (doms x). w \<notin> set (doms' x)))"
    by auto
qed

theorem revise_removes_unsupported_witness:
  "revise ex_crossword (init_domains ex_crossword) slot_B slot_C = Inr (False, init_domains ex_crossword) \<and>
   (\<exists>revised doms'. revise ex_crossword (init_domains ex_crossword) slot_A slot_C = Inr (revised, doms') \<and>
      doms' slot_A = [''CAT'', ''COD''] \<and> revised)"
proof -
  have "revise ex_crossword (init_domains ex_crossword) slot_B slot_C = Inr (False, init_domains ex_crossword)"
    using revise_removes_unsupported[of slot_B slot_C ex_crossword None "init_domains ex_crossword"]
    by (simp add: ex_defs)
  moreover have "\<exists>revised doms'. revise ex_crossword (init_domains ex_crossword) slot_A slot_C = Inr (revised, doms') \<and>
      doms' slot_A = [''CAT'', ''COD''] \<and> revised"
    using revise_removes_unsupported[of slot_A slot_C ex_crossword "Some (2, 0)" "init_domains ex_crossword"]
    by (auto simp: ex_defs init_domains_def)
  ultimately show ?thesis by simp
qed

text \<open>
  C10. Under the same conditions \<open>revise x y\<close> returns, and the store it returns gives
  every slot other than \<open>x\<close> the domain it had. The crossword, with its overlaps and
  neighbours, is not part of the state that \<open>revise\<close> returns: it is a parameter that
  no method of the creator assigns to.
\<close>

theorem revise_changes_only_x:
  assumes "x \<noteq> y" and "overlaps cw (x, y) = Some ov"
    and "\<forall>i_x i_y. ov = Some (i_x, i_y) \<longrightarrow>
           (\<forall>w \<in> set (doms x). i_x < length w) \<and> (\<forall>w \<in> set (doms y). i_y < length w)"
  shows "\<exists>revised doms'. revise cw doms x y = Inr (revised, doms') \<and>
           (\<forall>z. z \<noteq> x \<longrightarrow> doms' z = doms z)"
proof (cases ov)
  case None
  with assms(2) show ?thesis by (auto simp: revise_def)
next
  case (Some p)
  obtain i_x i_y where "p = (i_x, i_y)" by (cases p)
  with Some assms show ?thesis
    using revise_exact[of x y cw i_x i_y doms] by auto
qed

theorem revise_changes_only_x_witness:
  "\<exists>revised doms'. revise ex_crossword (init_domains ex_crossword) slot_A slot_C = Inr (revised, doms') \<and>
     doms' slot_B = words ex_crossword \<and> doms' slot_C = words ex_crossword"
  using revise_changes_only_x[of slot_A slot_C ex_crossword "Some (2, 0)" "init_domains ex_crossword"]
  by (fastforce simp: ex_defs init_domains_def)

section \<open>Properties of the puzzle model\<close>

lemma wf_crossword_overlaps:
  assumes "wf_crossword cw" "x \<in> set (variables cw)" "y \<in> set (variables cw)" "x \<noteq> y"
  obtains (no_overlap) "overlaps cw (x, y) = Some None" "overlaps cw (y, x) = Some None"
  | (overlap) i_x i_y where "overlaps cw (x, y) = Some (Some (i_x, i_y))"
      "overlaps cw (y, x) = Some (Some (i_y, i_x))" "i_x < var_length x" "i_y < var_length y"
proof -
  from assms have "case overlaps cw (x, y) of
           None \<Rightarrow> False
         | Some None \<Rightarrow> overlaps cw (y, x) = Some None
         | Some (Some (i_x, i_y)) \<Rightarrow>
             overlaps cw (y, x) = Some (Some (i_y, i_x)) \<and> i_x < var_length x \<and> i_y < var_length y"
    unfolding wf_crossword_def list_all_iff by blast
  then show thesis
    using no_overlap overlap by (auto split: option.splits)
qed

lemma wf_crossword_distinct: "wf_crossword cw \<Longrightarrow> distinct (variables cw)"
  by (simp add: wf_crossword_def)

section \<open>Completeness of an assignment\<close>

text \<open>What the spec calls complete: exactly one entry per slot of the puzzle.\<close>

definition complete_spec :: "crossword \<Rightarrow> assignment \<Rightarrow> bool" where
  "complete_spec cw assignment \<longleftrightarrow>
     distinct (assignment_keys assignment) \<and> set (assignment_keys assignment) = set (variables cw)"

definition foreign_assignment :: assignment where
  "foreign_assignment = [(slot_A, ''CAT''), (slot_B, ''COD''), (Variable 9 9 DOWN 3, ''TOP'')]"

text \<open>
  C9, as stated, fails: \<open>assignment_complete\<close> compares two lengths. An assignment with
  as many entries as the puzzle has slots is reported complete although one of its keys
  is no slot of the puzzle and \<open>slot_C\<close> has no entry.
\<close>

theorem assignment_complete_foreign_key:
  "assignment_complete ex_crossword foreign_assignment \<and>
   distinct (assignment_keys foreign_assignment) \<and>
   set (assignment_keys foreign_assignment) \<noteq> set (variables ex_crossword)"
proof -
  have "slot_C \<in> set (variables ex_crossword)" by (simp add: ex_defs)
  moreover have "slot_C \<notin> set (assignment_keys foreign_assignment)"
    by (simp add: foreign_assignment_def assignment_keys_def ex_defs)
  ultimately have "set (assignment_keys foreign_assignment) \<noteq> set (variables ex_crossword)" by blast
  then show ?thesis
    by (simp add: assignment_complete_def foreign_assignment_def assignment_keys_def ex_defs)
qed

lemma assignment_complete_keys:
  assumes "distinct (variables cw)" and "distinct (assignment_keys assignment)"
    and "set (assignment_keys assignment) \<subseteq> set (variables cw)"
  shows "assignment_complete cw assignment \<longleftrightarrow> set (assignment_keys assignment) = set (variables cw)"
proof
  assume "assignment_complete cw assignment"
  then have "length (assignment_keys assignment) = length (variables cw)"
    by (simp add: assignment_complete_def assignment_keys_def)
  then have "card (set (assignment_keys assignment)) = card (set (variables cw))"
    using assms(1,2) by (simp add: distinct_card)
  with assms(3) show "set (assignment_keys assignment) = set (variables cw)"
    by (intro card_subset_eq) auto
next
  assume "set (assignment_keys assignment) = set (variables cw)"
  then have "card (set (assignment_keys assignment)) = card (set (variables cw))" by simp
  then have "length (assignment_keys assignment) = length (variables cw)"
    using assms(1,2) by (simp add: distinct_card)
  then show "assignment_complete cw assignment"
    by (simp add: assignment_complete_def assignment_keys_def)
qed

text \<open>
  C9, amended: for an assignment whose keys are all slots of the puzzle,
  \<open>assignment_complete\<close> holds iff the keys are exactly the slots.
\<close>

theorem assignment_complete_iff:
  assumes "distinct (variables cw)" and "distinct (assignment_keys assignment)"
    and "set (assignment_keys assignment) \<subseteq> set (variables cw)"
  shows "assignment_complete cw assignment \<longleftrightarrow> set (assignment_keys assignment) = set (variables cw)"
  using assms by (rule assignment_complete_keys)

theorem assignment_complete_iff_witness:
  "assignment_complete ex_crossword [(slot_C, ''TOP''), (slot_A, ''CAT''), (slot_B, ''COD'')] \<and>
   \<not> assignment_complete ex_crossword [(slot_C, ''TOP''), (slot_B, ''COD'')]"
proof -
  let ?full = "[(slot_C, ''TOP''), (slot_A, ''CAT''), (slot_B, ''COD'')]"
  let ?part = "[(slot_C, ''TOP''), (slot_B, ''COD'')]"
  have d: "distinct (variables ex_crossword)" by (simp add: ex_defs)
  have "distinct (assignment_keys ?full)" by (simp add: assignment_keys_def ex_defs)
  moreover have "set (assignment_keys ?full) = set (variables ex_crossword)"
    by (auto simp: assignment_keys_def ex_crossword_def)
  ultimately have full: "assignment_complete ex_crossword ?full"
    using assignment_complete_iff[OF d, of ?full] by simp
  have "distinct (assignment_keys ?part)" by (simp add: assignment_keys_def ex_defs)
  moreover have "set (assignment_keys ?part) \<subseteq> set (variables ex_crossword)"
    by (auto simp: assignment_keys_def ex_crossword_def)
  moreover have "slot_A \<notin> set (assignment_keys ?part)" by (simp add: assignment_keys_def ex_defs)
  moreover have "slot_A \<in> set (variables ex_crossword)" by (simp add: ex_crossword_def)
  ultimately have "\<not> assignment_complete ex_crossword ?part"
    using assignment_complete_iff[OF d, of ?part] by blast
  with full show ?thesis by simp
qed

section \<open>Consistency of an assignment\<close>

text \<open>
  What the spec calls consistent: the assigned words are pairwise distinct, each has the
  length of its slot, and the words of two assigned slots with an overlap agree on it.
\<close>

definition agree :: "crossword \<Rightarrow> assignment \<Rightarrow> variable \<Rightarrow> variable \<Rightarrow> bool" where
  "agree cw assignment x y \<longleftrightarrow>
     (case overlaps cw (x, y) of
        Some (Some (i_x, i_y)) \<Rightarrow>
          (case (map_of assignment x, map_of assignment y) of
             (Some word_x, Some word_y) \<Rightarrow> word_x ! i_x = word_y ! i_y
           | _ \<Rightarrow> False)
      | _ \<Rightarrow> True)"

definition consistent_spec :: "crossword \<Rightarrow> assignment \<Rightarrow> bool" where
  "consistent_spec cw assignment \<longleftrightarrow>
     distinct (map snd assignment) \<and>
     list_all (\<lambda>(v, word). length word = var_length v) assignment \<and>
     list_all (\<lambda>x. list_all (\<lambda>y. x = y \<or> agree cw assignment x y) (assignment_keys assignment))
       (assignment_keys assignment)"

lemma combinations2_sound:
  "(x, y) \<in> set (combinations2 xs) \<Longrightarrow> distinct xs \<Longrightarrow> x \<in> set xs \<and> y \<in> set xs \<and> x \<noteq> y"
  by (induction xs) auto

lemma combinations2_complete:
  "x \<in> set xs \<Longrightarrow> y \<in> set xs \<Longrightarrow> x \<noteq> y \<Longrightarrow>
     (x, y) \<in> set (combinations2 xs) \<or> (y, x) \<in> set (combinations2 xs)"
  by (induction xs) auto

lemma agree_sym:
  assumes "wf_crossword cw" "x \<in> set (variables cw)" "y \<in> set (variables cw)" "x \<noteq> y"
  shows "agree cw assignment x y \<longleftrightarrow> agree cw assignment y x"
  using assms(1,2,3,4)
  by (cases rule: wf_crossword_overlaps) (auto simp: agree_def split: option.splits)

lemma check_overlaps_agree:
  assumes "wf_crossword cw"
    and "\<forall>(v, word) \<in> set assignment. length word = var_length v"
    and "\<forall>(x, y) \<in> set pairs. x \<in> set (variables cw) \<and> y \<in> set (variables cw) \<and> x \<noteq> y \<and>
           x \<in> set (assignment_keys assignment) \<and> y \<in> set (assignment_keys assignment)"
  shows "check_overlaps cw assignment pairs = Inr (\<forall>(x, y) \<in> set pairs. agree cw assignment x y)"
  using assms(3)
proof (induction pairs)
  case Nil
  then show ?case by simp
next
  case (Cons p pairs)
  obtain x y where p: "p = (x, y)" by (cases p)
  from Cons.prems p have xy: "x \<in> set (variables cw)" "y \<in> set (variables cw)" "x \<noteq> y"
    and kx: "x \<in> set (assignment_keys assignment)" and ky: "y \<in> set (assignment_keys assignment)"
    by auto
  from kx obtain word_x where wx: "map_of assignment x = Some word_x"
    by (auto simp: assignment_keys_def weak_map_of_SomeI dest!: weak_map_of_SomeI)
  from ky obtain word_y where wy: "map_of assignment y = Some word_y"
    by (auto simp: assignment_keys_def dest!: weak_map_of_SomeI)
  from wx assms(2) have lx: "length word_x = var_length x" by (auto dest!: map_of_SomeD)
  from wy assms(2) have ly: "length word_y = var_length y" by (auto dest!: map_of_SomeD)
  have IH: "check_overlaps cw assignment pairs = Inr (\<forall>(x, y) \<in> set pairs. agree cw assignment x y)"
    using Cons by simp
  from assms(1) xy show ?case
  proof (cases rule: wf_crossword_overlaps)
    case no_overlap
    then show ?thesis using IH p by (simp add: agree_def)
  next
    case (overlap i_x i_y)
    then show ?thesis
      using IH p wx wy lx ly by (auto simp: agree_def dict_get_def py_index_def)
  qed
qed

lemma consistent_correct:
  assumes "wf_crossword cw" and "distinct (assignment_keys assignment)"
    and "set (assignment_keys assignment) \<subseteq> set (variables cw)"
  shows "consistent cw assignment = Inr (consistent_spec cw assignment)"
proof -
  let ?keys = "assignment_keys assignment"
  have d: "length (remdups (map snd assignment)) \<noteq> length assignment \<longleftrightarrow> \<not> distinct (map snd assignment)"
    using length_remdups_eq[of "map snd assignment"] remdups_id_iff_distinct[of "map snd assignment"]
    by simp
  have l: "list_ex (\<lambda>(v, word). length word \<noteq> var_length v) assignment
             \<longleftrightarrow> \<not> list_all (\<lambda>(v, word). length word = var_length v) assignment"
    by (auto simp: list_ex_iff list_all_iff)
  show ?thesis
  proof (cases "distinct (map snd assignment) \<and> list_all (\<lambda>(v, word). length word = var_length v) assignment")
    case False
    then show ?thesis
      using d l by (auto simp: consistent_def consistent_spec_def)
  next
    case True
    then have len: "\<forall>(v, word) \<in> set assignment. length word = var_length v"
      by (simp add: list_all_iff)
    have pairs: "\<forall>(x, y) \<in> set (combinations2 ?keys). x \<in> set (variables cw) \<and> y \<in> set (variables cw) \<and> x \<noteq> y \<and>
           x \<in> set ?keys \<and> y \<in> set ?keys"
      using combinations2_sound[OF _ assms(2)] assms(3) by blast
    have "(\<forall>(x, y) \<in> set (combinations2 ?keys). agree cw assignment x y)
            \<longleftrightarrow> (\<forall>x \<in> set ?keys. \<forall>y \<in> set ?keys. x = y \<or> agree cw assignment x y)"
    proof (rule iffI)
      assume a: "\<forall>(x, y) \<in> set (combinations2 ?keys). agree cw assignment x y"
      show "\<forall>x \<in> set ?keys. \<forall>y \<in> set ?keys. x = y \<or> agree cw assignment x y"
      proof (intro ballI)
        fix x y
        assume x: "x \<in> set ?keys" and y: "y \<in> set ?keys"
        show "x = y \<or> agree cw assignment x y"
        proof (cases "x = y")
          case False
          with combinations2_complete[OF x y] consider "(x, y) \<in> set (combinations2 ?keys)"
            | "(y, x) \<in> set (combinations2 ?keys)" by blast
          then have "agree cw assignment x y"
          proof cases
            case 1
            with a show ?thesis by blast
          next
            case 2
            with a have "agree cw assignment y x" by blast
            then show ?thesis
              using agree_sym[OF assms(1), of x y assignment] x y False assms(3) by blast
          qed
          then show ?thesis ..
        qed simp
      qed
    next
      assume "\<forall>x \<in> set ?keys. \<forall>y \<in> set ?keys. x = y \<or> agree cw assignment x y"
      then show "\<forall>(x, y) \<in> set (combinations2 ?keys). agree cw assignment x y"
        using combinations2_sound[OF _ assms(2)] by blast
    qed
    then show ?thesis
      using True d l check_overlaps_agree[OF assms(1) len pairs]
      by (simp add: consistent_def consistent_spec_def list_all_iff)
  qed
qed

text \<open>
  C7. For an assignment over slots of a well-formed puzzle, \<open>consistent\<close> returns, and
  it returns true iff the assigned words are pairwise distinct, each has the length of its
  slot, and every two assigned slots with an overlap agree on it. \<open>consistent\<close> neither
  takes nor returns the store.
\<close>

theorem consistent_iff_spec:
  assumes "wf_crossword cw" and "distinct (assignment_keys assignment)"
    and "set (assignment_keys assignment) \<subseteq> set (variables cw)"
  shows "consistent cw assignment = Inr (consistent_spec cw assignment)"
  using assms by (rule consistent_correct)

lemma wf_ex_crossword: "wf_crossword ex_crossword"
  by (simp add: wf_crossword_def ex_defs)

theorem consistent_iff_spec_witness:
  "consistent ex_crossword [(slot_A, ''CAT''), (slot_B, ''COD'')] = Inr True \<and>
   consistent ex_crossword [(slot_A, ''CAT''), (slot_C, ''COD'')] = Inr False"
proof -
  let ?good = "[(slot_A, ''CAT''), (slot_B, ''COD'')]"
  let ?bad = "[(slot_A, ''CAT''), (slot_C, ''COD'')]"
  have "distinct (assignment_keys ?good)" "set (assignment_keys ?good) \<subseteq> set (variables ex_crossword)"
    by (simp_all add: assignment_keys_def ex_defs)
  then have "consistent ex_crossword ?good = Inr (consistent_spec ex_crossword ?good)"
    by (rule consistent_iff_spec[OF wf_ex_crossword])
  moreover have "consistent_spec ex_crossword ?good"
    by (simp add: consistent_spec_def agree_def assignment_keys_def ex_defs)
  moreover have "distinct (assignment_keys ?bad)" "set (assignment_keys ?bad) \<subseteq> set (variables ex_crossword)"
    by (simp_all add: assignment_keys_def ex_defs)
  then have "consistent ex_crossword ?bad = Inr (consistent_spec ex_crossword ?bad)"
    by (rule consistent_iff_spec[OF wf_ex_crossword])
  moreover have "\<not> consistent_spec ex_crossword ?bad"
    by (simp add: consistent_spec_def agree_def assignment_keys_def ex_defs)
  ultimately show ?thesis by simp
qed

section \<open>Variable selection\<close>

lemma py_index_0_sort_key:
  assumes "py_index (sort_key f xs) 0 = Inr v"
  shows "v \<in> set xs \<and> (\<forall>u \<in> set xs. f v \<le> f u)"
proof -
  obtain rest where s: "sort_key f xs = v # rest"
    using assms by (cases "sort_key f xs") (auto simp: py_index_def)
  have "sorted (map f (sort_key f xs))" by simp
  with s have "\<forall>u \<in> set rest. f v \<le> f u" by simp
  moreover have "set xs = insert v (set rest)"
    using s set_sort[of f xs] by simp
  ultimately show ?thesis by auto
qed

text \<open>
  What \<open>select_unassigned_variable\<close> computes: an unassigned slot whose pair of domain
  size and degree is least in the lexicographic order. Among the unassigned slots with
  the fewest candidates it is therefore one with the fewest neighbours.
\<close>

lemma select_unassigned_variable_least:
  assumes "select_unassigned_variable cw doms assignment = Inr var"
  shows "var \<in> set (unassigned_variables cw assignment) \<and>
         (\<forall>u \<in> set (unassigned_variables cw assignment).
            length (doms var) < length (doms u) \<or>
            length (doms var) = length (doms u) \<and> length (neighbors cw var) \<le> length (neighbors cw u))"
proof -
  let ?key = "\<lambda>x. (length (doms x), length (neighbors cw x))"
  from assms have "var \<in> set (unassigned_variables cw assignment) \<and>
      (\<forall>u \<in> set (unassigned_variables cw assignment). ?key var \<le> ?key u)"
    unfolding select_unassigned_variable_def by (rule py_index_0_sort_key)
  then show ?thesis by auto
qed

text \<open>
  C3 does not hold of the code. In the example puzzle no slot is assigned and every
  domain has four words; \<open>slot_A\<close> has two neighbours, \<open>slot_B\<close> and \<open>slot_C\<close> have one.
  The slot returned is \<open>slot_B\<close>, of degree one, where the claim and the docstring of the
  method ask for \<open>slot_A\<close>, the slot of highest degree.
\<close>

theorem select_unassigned_variable_lowest_degree:
  "select_unassigned_variable ex_crossword (init_domains ex_crossword) [] = Inr slot_B \<and>
   length (init_domains ex_crossword slot_A) = length (init_domains ex_crossword slot_B) \<and>
   length (neighbors ex_crossword slot_B) = 1 \<and>
   length (neighbors ex_crossword slot_A) = 2"
  by (simp add: select_unassigned_variable_def unassigned_variables_def assignment_keys_def
      neighbors_def init_domains_def py_index_def ex_defs)

section \<open>Properties of AC-3\<close>

text \<open>
  An invariant rule for the loop of \<open>ac3\<close>: \<open>I\<close> holds of the store and the arcs still to
  be processed, every step keeps it, and the loop then returns a result with \<open>Q\<close>.
\<close>

lemma ac3_loop_rule:
  assumes step: "\<And>doms arcs x y arcs'.
      I doms arcs \<Longrightarrow> arcs \<noteq> [] \<Longrightarrow> set_pop pick arcs = ((x, y), arcs') \<Longrightarrow>
        \<exists>revised doms'. revise cw doms x y = Inr (revised, doms') \<and>
          (if revised
           then (doms' x = [] \<longrightarrow> Q (False, doms')) \<and>
                (doms' x \<noteq> [] \<longrightarrow> I doms' (set_union (arcs_into cw x) arcs'))
           else I doms' arcs')"
    and final: "\<And>doms. I doms [] \<Longrightarrow> Q (True, doms)"
  shows "I doms arcs \<Longrightarrow> \<exists>r. ac3_loop pick cw doms arcs = Inr r \<and> Q r"
  using step final
proof (induction pick cw doms arcs rule: ac3_loop.induct)
  case (1 pick cw doms arcs)
  show ?case
  proof (cases "arcs = []")
    case True
    then have "ac3_loop pick cw doms arcs = Inr (True, doms)"
      by (subst ac3_loop.simps) simp
    moreover have "Q (True, doms)" using "1.prems"(1,3) True by blast
    ultimately show ?thesis by blast
  next
    case False
    obtain x y arcs' where pop: "set_pop pick arcs = ((x, y), arcs')"
      by (metis prod.exhaust)
    from "1.prems"(2)[OF "1.prems"(1) False pop] obtain revised doms' where
      rev: "revise cw doms x y = Inr (revised, doms')"
      and post: "if revised
           then (doms' x = [] \<longrightarrow> Q (False, doms')) \<and>
                (doms' x \<noteq> [] \<longrightarrow> I doms' (set_union (arcs_into cw x) arcs'))
           else I doms' arcs'" by blast
    have unfold: "ac3_loop pick cw doms arcs =
        (if revised then
           if length (doms' x) = 0 then Inr (False, doms')
           else ac3_loop pick cw doms' (set_union (arcs_into cw x) arcs')
         else ac3_loop pick cw doms' arcs')"
      using False pop rev by (subst ac3_loop.simps) simp
    have pos: "0 < length arcs" using False by simp
    show ?thesis
    proof (cases revised)
      case True
      show ?thesis
      proof (cases "doms' x = []")
        case True
        with \<open>revised\<close> post unfold show ?thesis by auto
      next
        case False
        with \<open>revised\<close> post have inv: "I doms' (set_union (arcs_into cw x) arcs')" by simp
        have "\<exists>r. ac3_loop pick cw doms' (set_union (arcs_into cw x) arcs') = Inr r \<and> Q r"
          using "1.IH"(1)[OF pos pop[symmetric] refl rev refl \<open>revised\<close> _ inv "1.prems"(2,3)] False
          by simp
        with \<open>revised\<close> False unfold show ?thesis by simp
      qed
    next
      case False
      with post have inv: "I doms' arcs'" by simp
      have "\<exists>r. ac3_loop pick cw doms' arcs' = Inr r \<and> Q r"
        using "1.IH"(2)[OF pos pop[symmetric] refl rev refl False inv "1.prems"(2,3)] by simp
      with False unfold show ?thesis by simp
    qed
  qed
qed


text \<open>
  The domains are node consistent when every candidate word of a slot has the length of
  the slot: the state that \<open>enforce_node_consistency\<close> establishes.
\<close>

definition node_consistent :: "crossword \<Rightarrow> domains \<Rightarrow> bool" where
  "node_consistent cw doms \<longleftrightarrow>
     list_all (\<lambda>v. list_all (\<lambda>word. length word = var_length v) (doms v)) (variables cw)"

text \<open>
  A word of the domain of \<open>x\<close> is supported by \<open>y\<close> when the slots do not overlap or some
  word of the domain of \<open>y\<close> agrees with it on the overlap; the arc from \<open>x\<close> to \<open>y\<close> is
  consistent when every word of the domain of \<open>x\<close> is supported.
\<close>

definition supported :: "crossword \<Rightarrow> domains \<Rightarrow> variable \<Rightarrow> variable \<Rightarrow> string \<Rightarrow> bool" where
  "supported cw doms x y word_x \<longleftrightarrow>
     (case overlaps cw (x, y) of
        Some (Some (i_x, i_y)) \<Rightarrow> list_ex (\<lambda>word_y. word_x ! i_x = word_y ! i_y) (doms y)
      | _ \<Rightarrow> True)"

definition arc_consistent :: "crossword \<Rightarrow> domains \<Rightarrow> variable \<Rightarrow> variable \<Rightarrow> bool" where
  "arc_consistent cw doms x y \<longleftrightarrow> list_all (supported cw doms x y) (doms x)"

lemma node_consistentD:
  "node_consistent cw doms \<Longrightarrow> v \<in> set (variables cw) \<Longrightarrow> word \<in> set (doms v) \<Longrightarrow>
     length word = var_length v"
  by (auto simp: node_consistent_def list_all_iff)

lemma node_consistent_subset:
  "node_consistent cw doms \<Longrightarrow> (\<And>v. set (doms' v) \<subseteq> set (doms v)) \<Longrightarrow> node_consistent cw doms'"
  unfolding node_consistent_def list_all_iff by blast

lemma set_all_arcs:
  "set (all_arcs cw) = {(x, y). x \<in> set (variables cw) \<and> y \<in> set (variables cw) \<and> x \<noteq> y}"
  by (auto simp: all_arcs_def)

lemma arcs_into_subset:
  "x \<in> set (variables cw) \<Longrightarrow> set (arcs_into cw x) \<subseteq> set (all_arcs cw)"
  by (auto simp: set_arcs_into set_all_arcs)

lemma revise_spec:
  assumes "wf_crossword cw" "node_consistent cw doms"
    and "x \<in> set (variables cw)" "y \<in> set (variables cw)" "x \<noteq> y"
  shows "revise cw doms x y =
           Inr (\<not> arc_consistent cw doms x y, doms(x := filter (supported cw doms x y) (doms x)))"
  using assms(1,3,4,5)
proof (cases rule: wf_crossword_overlaps)
  case no_overlap
  then have "supported cw doms x y = (\<lambda>w. True)"
    by (intro ext) (simp add: supported_def)
  then show ?thesis
    using no_overlap by (simp add: revise_def arc_consistent_def list_all_iff)
next
  case (overlap i_x i_y)
  have ix: "\<forall>w \<in> set (doms x). i_x < length w"
    using node_consistentD[OF assms(2,3)] overlap(3) by simp
  have iy: "\<forall>w \<in> set (doms y). i_y < length w"
    using node_consistentD[OF assms(2,4)] overlap(4) by simp
  have supp: "supported cw doms x y = (\<lambda>w. \<exists>word_y \<in> set (doms y). w ! i_x = word_y ! i_y)"
    using overlap(1) by (intro ext) (simp add: supported_def list_ex_iff)
  show ?thesis
    using revise_exact[OF assms(5) overlap(1) ix iy]
    by (simp add: supp arc_consistent_def list_all_iff)
qed

lemma arc_consistent_filter_id:
  "arc_consistent cw doms x y \<Longrightarrow> doms(x := filter (supported cw doms x y) (doms x)) = doms"
  by (auto simp: arc_consistent_def list_all_iff)

lemma supported_cong:
  "set (doms' y) = set (doms y) \<Longrightarrow> supported cw doms' x y w = supported cw doms x y w"
  by (auto simp: supported_def list_ex_iff split: option.splits)

lemma arc_consistent_mono:
  assumes "arc_consistent cw doms u v" "set (doms' u) \<subseteq> set (doms u)" "set (doms' v) = set (doms v)"
  shows "arc_consistent cw doms' u v"
  using assms(1,2) supported_cong[of doms' v doms cw u] assms(3)
  by (auto simp: arc_consistent_def list_all_iff)

lemma arc_consistent_after_revise:
  assumes "x \<noteq> y"
  shows "arc_consistent cw (doms(x := filter (supported cw doms x y) (doms x))) x y"
proof -
  let ?d = "doms(x := filter (supported cw doms x y) (doms x))"
  have "set (?d y) = set (doms y)" using assms by simp
  then have "\<And>w. supported cw ?d x y w = supported cw doms x y w"
    by (rule supported_cong)
  then show ?thesis
    by (simp add: arc_consistent_def list_all_iff)
qed

text \<open>The step of the loop, for a well-formed puzzle and node-consistent domains.\<close>

lemma ac3_step:
  assumes wf: "wf_crossword cw" and nc: "node_consistent cw doms"
    and sub: "set arcs \<subseteq> set (all_arcs cw)" and ne: "arcs \<noteq> []"
    and pop: "set_pop pick arcs = ((x, y), arcs')"
  obtains revised doms' where
    "revise cw doms x y = Inr (revised, doms')"
    "x \<in> set (variables cw)" "y \<in> set (variables cw)" "x \<noteq> y"
    "doms' = doms(x := filter (supported cw doms x y) (doms x))"
    "revised \<longleftrightarrow> \<not> arc_consistent cw doms x y"
    "node_consistent cw doms'"
    "set arcs' \<subseteq> set (all_arcs cw)"
    "set (set_union (arcs_into cw x) arcs') \<subseteq> set (all_arcs cw)"
    "set arcs' = set arcs - {(x, y)}"
proof -
  from set_pop_mem[OF ne pop] have mem: "(x, y) \<in> set arcs" and arcs': "arcs' = removeAll (x, y) arcs"
    by auto
  with sub have xy: "x \<in> set (variables cw)" "y \<in> set (variables cw)" "x \<noteq> y"
    by (auto simp: set_all_arcs)
  let ?d = "doms(x := filter (supported cw doms x y) (doms x))"
  have rev: "revise cw doms x y = Inr (\<not> arc_consistent cw doms x y, ?d)"
    by (rule revise_spec[OF wf nc xy])
  have "node_consistent cw ?d"
    by (rule node_consistent_subset[OF nc]) auto
  moreover have "set arcs' \<subseteq> set (all_arcs cw)" "set arcs' = set arcs - {(x, y)}"
    using arcs' sub by auto
  moreover have "set (set_union (arcs_into cw x) arcs') \<subseteq> set (all_arcs cw)"
    using arcs_into_subset[OF xy(1)] calculation(2) by simp
  ultimately show thesis using that[OF rev xy] by blast
qed

lemma ac3_loop_shrinks:
  assumes wf: "wf_crossword cw" and nc: "node_consistent cw doms"
    and sub: "set arcs \<subseteq> set (all_arcs cw)"
  shows "\<exists>r. ac3_loop pick cw doms arcs = Inr r \<and>
           ((\<forall>v. set (snd r v) \<subseteq> set (doms v)) \<and> node_consistent cw (snd r) \<and>
            (\<not> fst r \<longrightarrow> (\<exists>x \<in> set (variables cw). snd r x = [])))"
proof (rule ac3_loop_rule[where
      I = "\<lambda>d a. node_consistent cw d \<and> set a \<subseteq> set (all_arcs cw) \<and> (\<forall>v. set (d v) \<subseteq> set (doms v))"])
  show "node_consistent cw doms \<and> set arcs \<subseteq> set (all_arcs cw) \<and> (\<forall>v. set (doms v) \<subseteq> set (doms v))"
    using nc sub by simp
next
  fix d
  assume "node_consistent cw d \<and> set [] \<subseteq> set (all_arcs cw) \<and> (\<forall>v. set (d v) \<subseteq> set (doms v))"
  then show "(\<forall>v. set (snd (True, d) v) \<subseteq> set (doms v)) \<and> node_consistent cw (snd (True, d)) \<and>
            (\<not> fst (True, d) \<longrightarrow> (\<exists>x \<in> set (variables cw). snd (True, d) x = []))"
    by simp
next
  fix d a x y a'
  assume inv: "node_consistent cw d \<and> set a \<subseteq> set (all_arcs cw) \<and> (\<forall>v. set (d v) \<subseteq> set (doms v))"
    and ne: "a \<noteq> []" and pop: "set_pop pick a = ((x, y), a')"
  from inv have ncd: "node_consistent cw d" and suba: "set a \<subseteq> set (all_arcs cw)"
    and subd: "\<And>v. set (d v) \<subseteq> set (doms v)" by auto
  from wf ncd suba ne pop obtain revised d' where
    rev: "revise cw d x y = Inr (revised, d')" and x: "x \<in> set (variables cw)"
    and d': "d' = d(x := filter (supported cw d x y) (d x))"
    and ncd': "node_consistent cw d'"
    and a': "set a' \<subseteq> set (all_arcs cw)" "set (set_union (arcs_into cw x) a') \<subseteq> set (all_arcs cw)"
    by (rule ac3_step)
  have subd': "\<forall>v. set (d' v) \<subseteq> set (doms v)"
    using subd d' by auto
  show "\<exists>revised doms'. revise cw d x y = Inr (revised, doms') \<and>
          (if revised
           then (doms' x = [] \<longrightarrow> ((\<forall>v. set (snd (False, doms') v) \<subseteq> set (doms v)) \<and>
                    node_consistent cw (snd (False, doms')) \<and>
                    (\<not> fst (False, doms') \<longrightarrow> (\<exists>x \<in> set (variables cw). snd (False, doms') x = [])))) \<and>
                (doms' x \<noteq> [] \<longrightarrow> (node_consistent cw doms' \<and>
                    set (set_union (arcs_into cw x) a') \<subseteq> set (all_arcs cw) \<and>
                    (\<forall>v. set (doms' v) \<subseteq> set (doms v))))
           else node_consistent cw doms' \<and> set a' \<subseteq> set (all_arcs cw) \<and>
                (\<forall>v. set (doms' v) \<subseteq> set (doms v)))"
    using rev x ncd' a' subd' by (intro exI[of _ revised] exI[of _ d']) auto
qed

text \<open>
  C5. For a well-formed puzzle with node-consistent domains and any set of arcs between
  distinct slots (or the default set), \<open>ac3\<close> returns; no domain of the returned store has
  a word that it did not have before; if \<open>ac3\<close> returns false then the domain of some slot
  is empty; and if no domain of a slot is empty then \<open>ac3\<close> returns true.
\<close>

theorem ac3_shrinks_domains:
  assumes "wf_crossword cw" and "node_consistent cw doms"
    and "\<forall>given. arcs = Some given \<longrightarrow> set given \<subseteq> set (all_arcs cw)"
  shows "\<exists>enforced doms'. ac3 pick cw doms arcs = Inr (enforced, doms') \<and>
           (\<forall>v. set (doms' v) \<subseteq> set (doms v)) \<and>
           (\<not> enforced \<longrightarrow> (\<exists>x \<in> set (variables cw). doms' x = [])) \<and>
           ((\<forall>x \<in> set (variables cw). doms' x \<noteq> []) \<longrightarrow> enforced)"
proof -
  let ?arcs = "case arcs of None \<Rightarrow> all_arcs cw | Some given \<Rightarrow> given"
  have "set ?arcs \<subseteq> set (all_arcs cw)"
    using assms(3) by (cases arcs) auto
  from ac3_loop_shrinks[OF assms(1,2) this, of pick] obtain r where
    "ac3_loop pick cw doms ?arcs = Inr r" "\<forall>v. set (snd r v) \<subseteq> set (doms v)"
    "\<not> fst r \<longrightarrow> (\<exists>x \<in> set (variables cw). snd r x = [])" by blast
  then show ?thesis
    by (intro exI[of _ "fst r"] exI[of _ "snd r"]) (auto simp: ac3_def)
qed

lemma node_consistent_ex: "node_consistent ex_crossword (init_domains ex_crossword)"
  by (simp add: node_consistent_def init_domains_def ex_defs)

theorem ac3_shrinks_domains_witness:
  "\<exists>enforced doms'. ac3 pop_first ex_crossword (init_domains ex_crossword) None = Inr (enforced, doms') \<and>
     (\<forall>v. set (doms' v) \<subseteq> set (init_domains ex_crossword v)) \<and>
     (\<not> enforced \<longrightarrow> (\<exists>x \<in> set (variables ex_crossword). doms' x = [])) \<and>
     ((\<forall>x \<in> set (variables ex_crossword). doms' x \<noteq> []) \<longrightarrow> enforced)"
  using ac3_shrinks_domains[OF wf_ex_crossword node_consistent_ex, of None pop_first] by simp

lemma ac3_loop_fixpoint:
  assumes wf: "wf_crossword cw" and nc: "node_consistent cw doms"
    and sub: "set arcs \<subseteq> set (all_arcs cw)"
    and init: "\<forall>(u, v) \<in> set (all_arcs cw) - set arcs. arc_consistent cw doms u v"
  shows "\<exists>r. ac3_loop pick cw doms arcs = Inr r \<and>
           (node_consistent cw (snd r) \<and>
            (fst r \<longrightarrow> (\<forall>(u, v) \<in> set (all_arcs cw). arc_consistent cw (snd r) u v)))"
proof (rule ac3_loop_rule[where
      I = "\<lambda>d a. node_consistent cw d \<and> set a \<subseteq> set (all_arcs cw) \<and>
                 (\<forall>(u, v) \<in> set (all_arcs cw) - set a. arc_consistent cw d u v)"])
  show "node_consistent cw doms \<and> set arcs \<subseteq> set (all_arcs cw) \<and>
        (\<forall>(u, v) \<in> set (all_arcs cw) - set arcs. arc_consistent cw doms u v)"
    using nc sub init by simp
next
  fix d
  assume "node_consistent cw d \<and> set [] \<subseteq> set (all_arcs cw) \<and>
          (\<forall>(u, v) \<in> set (all_arcs cw) - set []. arc_consistent cw d u v)"
  then show "node_consistent cw (snd (True, d)) \<and>
            (fst (True, d) \<longrightarrow> (\<forall>(u, v) \<in> set (all_arcs cw). arc_consistent cw (snd (True, d)) u v))"
    by simp
next
  fix d a x y a'
  assume inv: "node_consistent cw d \<and> set a \<subseteq> set (all_arcs cw) \<and>
                 (\<forall>(u, v) \<in> set (all_arcs cw) - set a. arc_consistent cw d u v)"
    and ne: "a \<noteq> []" and pop: "set_pop pick a = ((x, y), a')"
  from inv have ncd: "node_consistent cw d" and suba: "set a \<subseteq> set (all_arcs cw)"
    and cons: "\<And>u v. (u, v) \<in> set (all_arcs cw) \<Longrightarrow> (u, v) \<notin> set a \<Longrightarrow> arc_consistent cw d u v"
    by auto
  from wf ncd suba ne pop obtain revised d' where
    rev: "revise cw d x y = Inr (revised, d')" and x: "x \<in> set (variables cw)" and xy: "x \<noteq> y"
    and d': "d' = d(x := filter (supported cw d x y) (d x))"
    and revised: "revised \<longleftrightarrow> \<not> arc_consistent cw d x y"
    and ncd': "node_consistent cw d'"
    and a': "set a' \<subseteq> set (all_arcs cw)" "set (set_union (arcs_into cw x) a') \<subseteq> set (all_arcs cw)"
    and seta': "set a' = set a - {(x, y)}"
    by (rule ac3_step)
  have xy_cons: "arc_consistent cw d' x y"
    unfolding d' by (rule arc_consistent_after_revise[OF xy])
  have unrevised: "(\<forall>(u, v) \<in> set (all_arcs cw) - set a'. arc_consistent cw d' u v)" if "\<not> revised"
  proof -
    from that revised have "d' = d" using d' arc_consistent_filter_id by simp
    then show ?thesis using cons xy_cons seta' by auto
  qed
  have revised_inv: "(\<forall>(u, v) \<in> set (all_arcs cw) - set (set_union (arcs_into cw x) a'). arc_consistent cw d' u v)"
  proof (clarify)
    fix u v
    assume uv: "(u, v) \<in> set (all_arcs cw)" and notin: "(u, v) \<notin> set (set_union (arcs_into cw x) a')"
    from uv have u: "u \<in> set (variables cw)" and uv_ne: "u \<noteq> v" by (auto simp: set_all_arcs)
    from notin u uv_ne have vx: "v \<noteq> x" by (auto simp: set_arcs_into)
    from notin have na': "(u, v) \<notin> set a'" by simp
    show "arc_consistent cw d' u v"
    proof (cases "(u, v) = (x, y)")
      case True
      with xy_cons show ?thesis by simp
    next
      case False
      with na' seta' have "(u, v) \<notin> set a" by auto
      from cons[OF uv this] have "arc_consistent cw d u v" .
      moreover have "set (d' u) \<subseteq> set (d u)" using d' by auto
      moreover have "set (d' v) = set (d v)" using d' vx by simp
      ultimately show ?thesis by (rule arc_consistent_mono)
    qed
  qed
  show "\<exists>revised doms'. revise cw d x y = Inr (revised, doms') \<and>
          (if revised
           then (doms' x = [] \<longrightarrow> (node_consistent cw (snd (False, doms')) \<and>
                    (fst (False, doms') \<longrightarrow> (\<forall>(u, v) \<in> set (all_arcs cw). arc_consistent cw (snd (False, doms')) u v)))) \<and>
                (doms' x \<noteq> [] \<longrightarrow> (node_consistent cw doms' \<and>
                    set (set_union (arcs_into cw x) a') \<subseteq> set (all_arcs cw) \<and>
                    (\<forall>(u, v) \<in> set (all_arcs cw) - set (set_union (arcs_into cw x) a'). arc_consistent cw doms' u v)))
           else node_consistent cw doms' \<and> set a' \<subseteq> set (all_arcs cw) \<and>
                (\<forall>(u, v) \<in> set (all_arcs cw) - set a'. arc_consistent cw doms' u v))"
    using rev ncd' a' unrevised revised_inv
    by (intro exI[of _ revised] exI[of _ d']) (simp del: set_set_union)
qed

lemma ac3_loop_stable:
  assumes wf: "wf_crossword cw" and nc: "node_consistent cw doms"
    and sub: "set arcs \<subseteq> set (all_arcs cw)"
    and fixp: "\<forall>(u, v) \<in> set (all_arcs cw). arc_consistent cw doms u v"
  shows "ac3_loop pick cw doms arcs = Inr (True, doms)"
proof -
  have "\<exists>r. ac3_loop pick cw doms arcs = Inr r \<and> r = (True, doms)"
  proof (rule ac3_loop_rule[where I = "\<lambda>d a. d = doms \<and> set a \<subseteq> set (all_arcs cw)"])
    show "doms = doms \<and> set arcs \<subseteq> set (all_arcs cw)" using sub by simp
  next
    fix d
    assume "d = doms \<and> set [] \<subseteq> set (all_arcs cw)"
    then show "(True, d) = (True, doms)" by simp
  next
    fix d a x y a'
    assume inv: "d = doms \<and> set a \<subseteq> set (all_arcs cw)"
      and ne: "a \<noteq> []" and pop: "set_pop pick a = ((x, y), a')"
    from inv have d: "d = doms" and suba: "set a \<subseteq> set (all_arcs cw)" by auto
    from wf nc suba ne pop obtain revised d' where
      rev: "revise cw doms x y = Inr (revised, d')"
      and d': "d' = doms(x := filter (supported cw doms x y) (doms x))"
      and revised: "revised \<longleftrightarrow> \<not> arc_consistent cw doms x y"
      and a': "set a' \<subseteq> set (all_arcs cw)" and seta': "set a' = set a - {(x, y)}"
      by (rule ac3_step)
    from set_pop_mem[OF ne pop] suba have "(x, y) \<in> set (all_arcs cw)" by auto
    with fixp have ac: "arc_consistent cw doms x y" by auto
    with revised d' have "\<not> revised" "d' = doms" using arc_consistent_filter_id by auto
    with rev a' d
    show "\<exists>revised doms'. revise cw d x y = Inr (revised, doms') \<and>
          (if revised
           then (doms' x = [] \<longrightarrow> (False, doms') = (True, doms)) \<and>
                (doms' x \<noteq> [] \<longrightarrow> doms' = doms \<and> set (set_union (arcs_into cw x) a') \<subseteq> set (all_arcs cw))
           else doms' = doms \<and> set a' \<subseteq> set (all_arcs cw))"
      by (intro exI[of _ False] exI[of _ doms]) simp
  qed
  then show ?thesis by auto
qed

text \<open>
  C6. For a well-formed puzzle with node-consistent domains: if \<open>ac3\<close> with the default
  arcs returns true and the store \<open>D\<close>, then \<open>ac3\<close> with the default arcs on \<open>D\<close> returns
  true and \<open>D\<close> again, whatever arcs the two runs pop.
\<close>

theorem ac3_idempotent:
  assumes "wf_crossword cw" and "node_consistent cw doms"
    and "ac3 pick cw doms None = Inr (True, D)"
  shows "ac3 pick' cw D None = Inr (True, D)"
proof -
  have "\<forall>(u, v) \<in> set (all_arcs cw) - set (all_arcs cw). arc_consistent cw doms u v" by simp
  from ac3_loop_fixpoint[OF assms(1,2) subset_refl this, of pick] assms(3)
  have nc: "node_consistent cw D" and fixp: "\<forall>(u, v) \<in> set (all_arcs cw). arc_consistent cw D u v"
    by (auto simp: ac3_def)
  show ?thesis
    using ac3_loop_stable[OF assms(1) nc subset_refl fixp, of pick'] by (simp add: ac3_def)
qed

section \<open>Solutions of a puzzle\<close>

text \<open>
  A solution is a complete, consistent assignment of words of the vocabulary; a puzzle is
  satisfiable when it has one.
\<close>

definition solution :: "crossword \<Rightarrow> assignment \<Rightarrow> bool" where
  "solution cw assignment \<longleftrightarrow>
     complete_spec cw assignment \<and> consistent_spec cw assignment \<and>
     list_all (\<lambda>(v, word). word \<in> set (words cw)) assignment"

definition satisfiable :: "crossword \<Rightarrow> bool" where
  "satisfiable cw \<longleftrightarrow> (\<exists>assignment. solution cw assignment)"

definition in_domains :: "domains \<Rightarrow> assignment \<Rightarrow> bool" where
  "in_domains doms assignment \<longleftrightarrow> list_all (\<lambda>(v, word). word \<in> set (doms v)) assignment"

lemma map_of_assignment:
  "distinct (assignment_keys assignment) \<Longrightarrow>
     map_of assignment v = Some word \<longleftrightarrow> (v, word) \<in> set assignment"
  by (simp add: assignment_keys_def)

lemma solution_entry:
  assumes "solution cw S" "v \<in> set (variables cw)"
  obtains word where "(v, word) \<in> set S" "map_of S v = Some word"
proof -
  from assms have d: "distinct (assignment_keys S)" and "v \<in> set (assignment_keys S)"
    by (auto simp: solution_def complete_spec_def)
  then obtain word where "(v, word) \<in> set S" by (auto simp: assignment_keys_def)
  with d that show thesis by (simp add: map_of_assignment)
qed

lemma solution_supported:
  assumes wf: "wf_crossword cw" and sol: "solution cw S" and ind: "in_domains doms S"
    and x: "x \<in> set (variables cw)" and y: "y \<in> set (variables cw)" and xy: "x \<noteq> y"
    and wx: "(x, word_x) \<in> set S"
  shows "supported cw doms x y word_x"
proof -
  from sol have d: "distinct (assignment_keys S)" and keys: "set (assignment_keys S) = set (variables cw)"
    and cons: "consistent_spec cw S" by (auto simp: solution_def complete_spec_def)
  from solution_entry[OF sol y] obtain word_y where wy: "(y, word_y) \<in> set S" "map_of S y = Some word_y" .
  from wx d have mx: "map_of S x = Some word_x" by (simp add: map_of_assignment)
  from wy ind have iny: "word_y \<in> set (doms y)" by (auto simp: in_domains_def list_all_iff)
  from cons x y xy keys have ag: "agree cw S x y"
    by (auto simp: consistent_spec_def list_all_iff)
  show ?thesis
  proof (cases "overlaps cw (x, y)")
    case None
    then show ?thesis by (simp add: supported_def)
  next
    case (Some ov)
    show ?thesis
    proof (cases ov)
      case None
      with Some show ?thesis by (simp add: supported_def)
    next
      case (Some p)
      obtain i_x i_y where p: "p = (i_x, i_y)" by (cases p)
      with Some \<open>overlaps cw (x, y) = Some ov\<close> ag mx wy(2) have "word_x ! i_x = word_y ! i_y"
        by (simp add: agree_def)
      with iny Some p \<open>overlaps cw (x, y) = Some ov\<close> show ?thesis
        by (auto simp: supported_def list_ex_iff)
    qed
  qed
qed

lemma revise_keeps_solution:
  assumes wf: "wf_crossword cw" and sol: "solution cw S" and ind: "in_domains doms S"
    and x: "x \<in> set (variables cw)" and y: "y \<in> set (variables cw)" and xy: "x \<noteq> y"
  shows "in_domains (doms(x := filter (supported cw doms x y) (doms x))) S"
  unfolding in_domains_def list_all_iff
proof (clarify)
  fix v word
  assume vw: "(v, word) \<in> set S"
  with ind have inv: "word \<in> set (doms v)" by (auto simp: in_domains_def list_all_iff)
  show "word \<in> set ((doms(x := filter (supported cw doms x y) (doms x))) v)"
  proof (cases "v = x")
    case True
    with solution_supported[OF wf sol ind x y xy] vw inv show ?thesis by simp
  next
    case False
    with inv show ?thesis by simp
  qed
qed

text \<open>
  AC-3 never removes a word of a solution: every revision is sound for the whole puzzle,
  whatever the assignment under which it runs.
\<close>

lemma ac3_loop_keeps_solution:
  assumes wf: "wf_crossword cw" and nc: "node_consistent cw doms"
    and sub: "set arcs \<subseteq> set (all_arcs cw)"
    and sol: "solution cw S" and ind: "in_domains doms S"
  shows "\<exists>r. ac3_loop pick cw doms arcs = Inr r \<and> in_domains (snd r) S"
proof (rule ac3_loop_rule[where
      I = "\<lambda>d a. node_consistent cw d \<and> set a \<subseteq> set (all_arcs cw) \<and> in_domains d S"])
  show "node_consistent cw doms \<and> set arcs \<subseteq> set (all_arcs cw) \<and> in_domains doms S"
    using nc sub ind by simp
next
  fix d
  assume "node_consistent cw d \<and> set [] \<subseteq> set (all_arcs cw) \<and> in_domains d S"
  then show "in_domains (snd (True, d)) S" by simp
next
  fix d a x y a'
  assume inv: "node_consistent cw d \<and> set a \<subseteq> set (all_arcs cw) \<and> in_domains d S"
    and ne: "a \<noteq> []" and pop: "set_pop pick a = ((x, y), a')"
  from inv have ncd: "node_consistent cw d" and suba: "set a \<subseteq> set (all_arcs cw)"
    and indd: "in_domains d S" by auto
  from wf ncd suba ne pop obtain revised d' where
    rev: "revise cw d x y = Inr (revised, d')"
    and xy: "x \<in> set (variables cw)" "y \<in> set (variables cw)" "x \<noteq> y"
    and d': "d' = d(x := filter (supported cw d x y) (d x))"
    and ncd': "node_consistent cw d'"
    and a': "set a' \<subseteq> set (all_arcs cw)" "set (set_union (arcs_into cw x) a') \<subseteq> set (all_arcs cw)"
    by (rule ac3_step)
  have "in_domains d' S"
    unfolding d' by (rule revise_keeps_solution[OF wf sol indd xy])
  with rev ncd' a'
  show "\<exists>revised doms'. revise cw d x y = Inr (revised, doms') \<and>
          (if revised
           then (doms' x = [] \<longrightarrow> in_domains (snd (False, doms')) S) \<and>
                (doms' x \<noteq> [] \<longrightarrow> (node_consistent cw doms' \<and>
                    set (set_union (arcs_into cw x) a') \<subseteq> set (all_arcs cw) \<and> in_domains doms' S))
           else node_consistent cw doms' \<and> set a' \<subseteq> set (all_arcs cw) \<and> in_domains doms' S)"
    by (intro exI[of _ revised] exI[of _ d']) (simp del: set_set_union)
qed

text \<open>What a call of \<open>ac3\<close> on arcs of the puzzle guarantees, in one statement.\<close>

lemma ac3_loop_total:
  assumes wf: "wf_crossword cw" and nc: "node_consistent cw doms"
    and sub: "set arcs \<subseteq> set (all_arcs cw)"
  obtains enforced doms' where
    "ac3_loop pick cw doms arcs = Inr (enforced, doms')"
    "node_consistent cw doms'"
    "\<And>v. set (doms' v) \<subseteq> set (doms v)"
    "\<not> enforced \<Longrightarrow> \<exists>x \<in> set (variables cw). doms' x = []"
    "\<And>S. solution cw S \<Longrightarrow> in_domains doms S \<Longrightarrow> in_domains doms' S"
proof -
  from ac3_loop_shrinks[OF wf nc sub, of pick] obtain r where
    r: "ac3_loop pick cw doms arcs = Inr r" and sh: "\<forall>v. set (snd r v) \<subseteq> set (doms v)"
    and ncr: "node_consistent cw (snd r)"
    and emp: "\<not> fst r \<longrightarrow> (\<exists>x \<in> set (variables cw). snd r x = [])" by blast
  have "in_domains (snd r) S" if "solution cw S" "in_domains doms S" for S
    using ac3_loop_keeps_solution[OF wf nc sub that, of pick] r by auto
  with r sh ncr emp that[of "fst r" "snd r"] show thesis by auto
qed

lemma solution_domain_nonempty:
  assumes "solution cw S" "in_domains doms S" "v \<in> set (variables cw)"
  shows "doms v \<noteq> []"
proof -
  from solution_entry[OF assms(1,3)] obtain word where "(v, word) \<in> set S" .
  with assms(2) have "word \<in> set (doms v)" by (auto simp: in_domains_def list_all_iff)
  then show ?thesis by auto
qed

definition ex_solution :: assignment where
  "ex_solution = [(slot_A, ''CAT''), (slot_B, ''COD''), (slot_C, ''TOP'')]"

lemma solution_ex: "solution ex_crossword ex_solution"
  by (simp add: solution_def complete_spec_def consistent_spec_def agree_def assignment_keys_def
      ex_solution_def ex_defs)

lemma in_domains_ex: "in_domains (init_domains ex_crossword) ex_solution"
  by (simp add: in_domains_def init_domains_def ex_solution_def ex_defs)

theorem ac3_idempotent_witness:
  "\<exists>D. ac3 pop_first ex_crossword (init_domains ex_crossword) None = Inr (True, D) \<and>
        ac3 pop_first ex_crossword D None = Inr (True, D)"
proof -
  obtain enforced D where
    run: "ac3_loop pop_first ex_crossword (init_domains ex_crossword) (all_arcs ex_crossword) = Inr (enforced, D)"
    and emp: "\<not> enforced \<Longrightarrow> \<exists>x \<in> set (variables ex_crossword). D x = []"
    and keep: "\<And>S. solution ex_crossword S \<Longrightarrow> in_domains (init_domains ex_crossword) S \<Longrightarrow> in_domains D S"
    using ac3_loop_total[OF wf_ex_crossword node_consistent_ex subset_refl, of pop_first]
    by metis
  from keep[OF solution_ex in_domains_ex] have "in_domains D ex_solution" .
  then have "\<forall>x \<in> set (variables ex_crossword). D x \<noteq> []"
    using solution_domain_nonempty[OF solution_ex] by blast
  with emp have enforced by blast
  with run have first: "ac3 pop_first ex_crossword (init_domains ex_crossword) None = Inr (True, D)"
    by (simp add: ac3_def)
  from ac3_idempotent[OF wf_ex_crossword node_consistent_ex first, of pop_first] first
  show ?thesis by blast
qed

end
